theory Spec2Isabelle
  imports Main
begin

unbundle bit_operations_syntax

section \<open>Errors\<close>

text \<open>
  Every \<^verbatim>\<open>raise\<close> of the modelled code is a value of this type. The source raises
  \<^verbatim>\<open>ValueError\<close> with different messages; the message is kept (shortened) so that the
  raising place can be told apart. \<^verbatim>\<open>KeyError\<close>, \<^verbatim>\<open>IndexError\<close> and
  \<^verbatim>\<open>ZeroDivisionError\<close> are the errors Python itself raises on a missing dictionary
  key, an out-of-range index and a zero modulus.
\<close>

datatype error =
    ValueError string
  | KeyError
  | IndexError
  | ZeroDivisionError

section \<open>Perfect hash function (core/code/utils.py)\<close>

text \<open>
  \<^verbatim>\<open>get_phf_prime(tuple_len)\<close>: the prime by size class. The argument is a length
  (\<^verbatim>\<open>len(group_tuple)\<close>), hence a natural number.
\<close>

definition get_phf_prime :: "nat \<Rightarrow> nat" where
  "get_phf_prime tuple_len =
     (if tuple_len \<le> 2 ^ 5 then 37
      else if tuple_len \<le> 2 ^ 6 then 67
      else if tuple_len \<le> 2 ^ 8 then 257
      else if tuple_len \<le> 2 ^ 12 then 4099
      else if tuple_len \<le> 2 ^ 14 then 16411
      else 1048583)"

definition PHF_A_LIMIT :: int where
  "PHF_A_LIMIT = 1000000"

text \<open>
  \<^verbatim>\<open>PHF_R_LIMIT = 127 if sys.maxsize > 2**64 else 61\<close>: the platform's
  \<^verbatim>\<open>sys.maxsize\<close> is a parameter of the model.
\<close>

definition PHF_R_LIMIT :: "int \<Rightarrow> nat" where
  "PHF_R_LIMIT maxsize = (if maxsize > 2 ^ 64 then 127 else 61)"

record ResultPHF =
  phf_a :: int
  phf_r :: nat
  phf_prime :: nat
  phf_n :: nat

text \<open>
  \<^verbatim>\<open>get_hash_with_args(value, a, r, n, prime)\<close>. Python integers are unbounded
  (\<^typ>\<open>int\<close>); \<^verbatim>\<open>>>\<close> on them is the arithmetic shift \<^const>\<open>drop_bit\<close>, \<^verbatim>\<open>^\<close> is
  \<open>XOR\<close> on two's complement, and \<^verbatim>\<open>%\<close> with a positive modulus is \<open>mod\<close>. The
  shift count comes from \<^verbatim>\<open>range(PHF_R_LIMIT)\<close> and the moduli are a prime of
  \<^const>\<open>get_phf_prime\<close> and a length, so the three are natural numbers; a zero modulus
  raises.
\<close>

definition get_hash_with_args :: "int \<Rightarrow> int \<Rightarrow> nat \<Rightarrow> nat \<Rightarrow> nat \<Rightarrow> error + nat" where
  "get_hash_with_args v a r n prime =
     (let p = v * a in
      if prime = 0 \<or> n = 0 then Inl ZeroDivisionError
      else Inr (nat (((p XOR (drop_bit r p)) mod int prime) mod int n)))"

text \<open>\<^verbatim>\<open>get_hash(value, phf)\<close>: the same formula, read from a \<^verbatim>\<open>ResultPHF\<close>.\<close>

definition get_hash :: "int \<Rightarrow> ResultPHF \<Rightarrow> error + nat" where
  "get_hash v phf =
     (let p = v * phf_a phf in
      if phf_prime phf = 0 \<or> phf_n phf = 0 then Inl ZeroDivisionError
      else Inr (nat (((p XOR (drop_bit (phf_r phf) p)) mod int (phf_prime phf)) mod int (phf_n phf))))"

text \<open>
  The hash function in the words of the specification,
  \<open>h(x) = ((x\<cdot>a) XOR ((x\<cdot>a) >> r)) mod prime mod n\<close>, as a total function; the two
  functions above compute it whenever they do not raise.
\<close>

definition phf_h :: "int \<Rightarrow> nat \<Rightarrow> nat \<Rightarrow> nat \<Rightarrow> int \<Rightarrow> nat" where
  "phf_h a r prime n x = nat ((((x * a) XOR (drop_bit r (x * a))) mod int prime) mod int n)"

section \<open>Names, identities and tables (core/data/core.py, core/code/base.py, core/code/abstract.py)\<close>

text \<open>
  A path is its string. \<^verbatim>\<open>Symbol\<close> and \<^verbatim>\<open>CompositeSymbol\<close> are the two kinds of
  name; \<^verbatim>\<open>FnHeader\<close> is a name with its argument types. The source compares names
  with names and headers with headers through their hash values; the model takes two
  names, or two headers, as equal exactly when they are built from the same data (no
  two different names, and no two different headers, have one hash value). Where the
  source compares a name with an object of another class, it compares the two hash
  values as well, and there the model keeps the hash values (see the containment tests
  below).
\<close>

type_synonym Path = string

datatype Name = Symbol string | CompositeSymbol "string list"

datatype FnHeader = FnHeader (fh_name: Name) (fh_args_types: "Name list")

text \<open>
  \<^verbatim>\<open>IRHash(ir_path)\<close>: key and uid, the uid being Python's \<^verbatim>\<open>hash\<close> of the path. That
  hash function is the parameter \<open>H\<close> wherever an identity is built.
  \<^verbatim>\<open>IRHash.__eq__\<close> and \<^verbatim>\<open>IRHash.__hash__\<close> read the uid only.
\<close>

record IRHash =
  irh_key :: Path
  irh_uid :: int

definition IRHash_init :: "(Path \<Rightarrow> int) \<Rightarrow> Path \<Rightarrow> IRHash" where
  "IRHash_init H ir_path = \<lparr>irh_key = ir_path, irh_uid = H ir_path\<rparr>"

definition IRHash_eq :: "IRHash \<Rightarrow> IRHash \<Rightarrow> bool" where
  "IRHash_eq x y = (irh_uid x = irh_uid y)"

text \<open>
  An insertion-ordered dictionary is an association list with distinct keys, oldest
  first. \<^verbatim>\<open>d[k] = v\<close> keeps the place of a key that is present and appends an absent
  one; \<^verbatim>\<open>k in d\<close> and \<^verbatim>\<open>d.get(k)\<close> are \<^const>\<open>map_of\<close>.
\<close>

fun od_set :: "('k \<times> 'v) list \<Rightarrow> 'k \<Rightarrow> 'v \<Rightarrow> ('k \<times> 'v) list" where
  "od_set [] k v = [(k, v)]"
| "od_set ((k', v') # d) k v = (if k' = k then (k, v) # d else (k', v') # od_set d k v)"

definition od_in :: "'k \<Rightarrow> ('k \<times> 'v) list \<Rightarrow> bool" where
  "od_in k d = (map_of d k \<noteq> None)"

text \<open>
  An argument whose class the source tests with \<^verbatim>\<open>isinstance\<close>: an instance of the
  class the signature names, or any other object.
\<close>

datatype 'a arg = Obj 'a | Other

section \<open>Symbol tables (core/code/symbol_table.py)\<close>

type_synonym 'td TypeTable = "(Name \<times> 'td) list"

type_synonym 'fd FnTable = "(Name \<times> (FnHeader \<times> 'fd) list) list"

text \<open>\<^verbatim>\<open>TypeTable.add(name, data)\<close>; the table is mutated in place, here returned.\<close>

definition TypeTable_add :: "'td TypeTable \<Rightarrow> Name arg \<Rightarrow> 'td arg \<Rightarrow> error + 'td TypeTable" where
  "TypeTable_add t name_arg data_arg =
     (case (name_arg, data_arg) of
        (Obj name, Obj data) \<Rightarrow>
          Inr (if \<not> od_in name t then od_set t name data else t)
      | _ \<Rightarrow> Inl (ValueError ''type must be symbol/composite symbol and its data must be known type structure''))"

text \<open>
  \<^verbatim>\<open>FnTable.add(fn_entry, data)\<close> with a \<^verbatim>\<open>FnHeader\<close> entry: a value that is no
  function definition is ignored without an error; \<^verbatim>\<open>dict.update\<close> with one pair is
  \<^const>\<open>od_set\<close>.
\<close>

definition FnTable_add :: "'fd FnTable \<Rightarrow> FnHeader \<Rightarrow> 'fd arg \<Rightarrow> 'fd FnTable" where
  "FnTable_add t fn_entry data_arg =
     (case data_arg of
        Obj data \<Rightarrow>
          (case map_of t (fh_name fn_entry) of
             Some ovl \<Rightarrow> od_set t (fh_name fn_entry) (od_set ovl fn_entry data)
           | None \<Rightarrow> od_set t (fh_name fn_entry) [(fn_entry, data)])
      | Other \<Rightarrow> t)"


text \<open>
  What the containment test of a node is asked about: a name, a function header or a
  path (the classes that \<^verbatim>\<open>IRGraph.__contains__\<close> lets through to the nodes).
\<close>

datatype Item = ItemName Name | ItemFn FnHeader | ItemPath Path

text \<open>
  \<^verbatim>\<open>TypeTable.__contains__\<close> is dictionary membership, \<^verbatim>\<open>item in self.table\<close>. The keys
  are names, and a key compares equal to every object that has its hash value
  (\<^verbatim>\<open>Symbol.__eq__\<close> and \<^verbatim>\<open>CompositeSymbol.__eq__\<close> compare hashes and nothing else),
  so a header or a path is in the table exactly when its hash is the hash of a key. A
  name is in the table when it is a key. \<open>hash_of\<close> is Python's \<^verbatim>\<open>hash\<close> of the object
  asked about, a parameter like the hash \<open>H\<close> of a path.
  \<^verbatim>\<open>FnTable.__contains__\<close> matches on the class of the item; for a header it indexes the
  table by the header's name, which raises \<^verbatim>\<open>KeyError\<close> when the name is absent, and
  for a path it answers \<^verbatim>\<open>False\<close>.
\<close>

fun TypeTable_contains_item :: "(Item \<Rightarrow> int) \<Rightarrow> Item \<Rightarrow> 'td TypeTable \<Rightarrow> bool" where
  "TypeTable_contains_item hash_of (ItemName nm) t = od_in nm t"
| "TypeTable_contains_item hash_of (ItemFn h) t =
     list_ex (\<lambda>(k, _). hash_of (ItemName k) = hash_of (ItemFn h)) t"
| "TypeTable_contains_item hash_of (ItemPath p) t =
     list_ex (\<lambda>(k, _). hash_of (ItemName k) = hash_of (ItemPath p)) t"

fun FnTable_contains :: "Item \<Rightarrow> 'fd FnTable \<Rightarrow> error + bool" where
  "FnTable_contains (ItemName nm) t = Inr (od_in nm t)"
| "FnTable_contains (ItemFn h) t =
     (case map_of t (fh_name h) of
        None \<Rightarrow> Inl KeyError
      | Some ovl \<Rightarrow> Inr (od_in h ovl))"
| "FnTable_contains (ItemPath p) t = Inr False"

text \<open>
  \<^verbatim>\<open>ConstTable.add(item)\<close>. A data definition carries its name and whether it reports
  itself as constant; the rest of it is a payload. The method reads the attribute
  \<^verbatim>\<open>is_constant\<close>, which the class \<^verbatim>\<open>DataDef\<close> of core/data/var_def.py does not
  declare: it is taken as a field of the item, as the specification describes it (a
  value that reports itself as constant). The item is a \<^verbatim>\<open>DataDef\<close>, as the signature
  says. The \<^verbatim>\<open>raise\<close> stands after the \<^verbatim>\<open>if\<close>, not in an \<^verbatim>\<open>else\<close>: it is
  reached on every call. The result is the outcome together with the table as the call
  leaves it.
\<close>

record 'v DataDef =
  dd_name :: Name
  dd_is_constant :: bool
  dd_data :: 'v

type_synonym 'v ConstTable = "(Name \<times> 'v DataDef) list"

definition ConstTable_add :: "'v ConstTable \<Rightarrow> 'v DataDef \<Rightarrow> (error + unit) \<times> 'v ConstTable" where
  "ConstTable_add t item =
     (let t' = (if dd_is_constant item then od_set t (dd_name item) item else t)
      in (Inl (ValueError ''data must be constant to be added to ConstTable''), t'))"

text \<open>
  \<^verbatim>\<open>SymbolTable\<close>: of its five tables the graph reads the type table and the function
  table; the other three take no part in what follows.
\<close>

record ('td, 'fd) SymbolTable =
  st_type :: "'td TypeTable"
  st_fn :: "'fd FnTable"

section \<open>Modules, reference tables and IR (core/code/abstract.py)\<close>

record ('td, 'fd) IRModule =
  mod_path :: Path
  mod_symbol_table :: "('td, 'fd) SymbolTable"

text \<open>
  \<^verbatim>\<open>BaseIRModule.__contains__\<close>: \<^verbatim>\<open>item in type or item in fn\<close>; the function table
  is asked only when the type table says no.
\<close>

definition IRModule_contains ::
  "(Item \<Rightarrow> int) \<Rightarrow> Item \<Rightarrow> ('td, 'fd) IRModule \<Rightarrow> error + bool" where
  "IRModule_contains hash_of item m =
     (if TypeTable_contains_item hash_of item (st_type (mod_symbol_table m)) then Inr True
      else FnTable_contains item (st_fn (mod_symbol_table m)))"

text \<open>
  \<^verbatim>\<open>RefTypeTable\<close> and \<^verbatim>\<open>RefFnTable\<close>: dictionaries from a used symbol to the identity
  of the unit that must define it; iterating one yields its items.
\<close>

record RefTable =
  rt_types :: "(Name \<times> IRHash) list"
  rt_fns :: "(FnHeader \<times> IRHash) list"

record ('td, 'fd) IR =
  ir_ref_table :: RefTable
  ir_module :: "('td, 'fd) IRModule"

section \<open>Graph nodes and the node set (core/code/ir_graph.py)\<close>

text \<open>
  \<^verbatim>\<open>IRNode(node)\<close>: the uid is the module's uid, that is the hash of the module's path.
  \<^verbatim>\<open>IRNode.__hash__\<close> returns the uid, and \<^verbatim>\<open>IRNode.__eq__\<close> compares the hashes of
  two nodes.
\<close>

record ('td, 'fd) IRNode =
  node_uid :: int
  node_path :: Path
  node_irhash :: IRHash
  node_ir :: "('td, 'fd) IR"

definition IRNode_init :: "(Path \<Rightarrow> int) \<Rightarrow> ('td, 'fd) IR \<Rightarrow> ('td, 'fd) IRNode" where
  "IRNode_init H node =
     \<lparr>node_uid = H (mod_path (ir_module node)),
      node_path = mod_path (ir_module node),
      node_irhash = IRHash_init H (mod_path (ir_module node)),
      node_ir = node\<rparr>"

definition IRNode_hash :: "('td, 'fd) IRNode \<Rightarrow> int" where
  "IRNode_hash x = node_uid x"

definition IRNode_eq :: "('td, 'fd) IRNode \<Rightarrow> ('td, 'fd) IRNode \<Rightarrow> bool" where
  "IRNode_eq x y = (IRNode_hash x = IRNode_hash y)"

text \<open>
  \<^verbatim>\<open>IRNode.__contains__\<close>: \<^verbatim>\<open>item in self._ir.module or item == self._path\<close>. In
  \<^verbatim>\<open>item == self._path\<close> the left operand decides: a name compares its hash with the
  hash of the path, a header is equal to headers only, and a path is equal to the same
  path.
\<close>

fun item_eq_path :: "(Item \<Rightarrow> int) \<Rightarrow> Item \<Rightarrow> Path \<Rightarrow> bool" where
  "item_eq_path hash_of (ItemName nm) p = (hash_of (ItemName nm) = hash_of (ItemPath p))"
| "item_eq_path hash_of (ItemFn h) p = False"
| "item_eq_path hash_of (ItemPath q) p = (q = p)"

definition IRNode_contains ::
  "(Item \<Rightarrow> int) \<Rightarrow> Item \<Rightarrow> ('td, 'fd) IRNode \<Rightarrow> error + bool" where
  "IRNode_contains hash_of item x =
     (case IRModule_contains hash_of item (ir_module (node_ir x)) of
        Inl e \<Rightarrow> Inl e
      | Inr True \<Rightarrow> Inr True
      | Inr False \<Rightarrow> Inr (item_eq_path hash_of item (node_path x)))"

text \<open>
  \<^verbatim>\<open>_gen_res_a_r_phf\<close>, called by \<^verbatim>\<open>gen_phf\<close> on the tuple of nodes of a graph. The
  loop threads \<^verbatim>\<open>res_list\<close>, a list of slots that are \<^verbatim>\<open>None\<close> or a node, and stops
  at the first collision; its result is the flag \<^verbatim>\<open>collision\<close> with the list.
  \<^verbatim>\<open>obj not in res_list\<close> compares \<^verbatim>\<open>obj\<close> with every slot by \<^verbatim>\<open>==\<close>, which is
  false on \<^verbatim>\<open>None\<close> and \<^const>\<open>IRNode_eq\<close> on a node. An index past the end of the
  list raises.
\<close>

definition in_res_list :: "('td, 'fd) IRNode \<Rightarrow> ('td, 'fd) IRNode option list \<Rightarrow> bool" where
  "in_res_list obj res_list =
     list_ex (\<lambda>e. case e of None \<Rightarrow> False | Some y \<Rightarrow> IRNode_eq y obj) res_list"

fun gen_res_loop ::
  "('td, 'fd) IRNode list \<Rightarrow> nat \<Rightarrow> int \<Rightarrow> nat \<Rightarrow> nat \<Rightarrow> ('td, 'fd) IRNode option list
     \<Rightarrow> error + (bool \<times> ('td, 'fd) IRNode option list)" where
  "gen_res_loop [] tuple_len a r prime res_list = Inr (False, res_list)"
| "gen_res_loop (obj # objs) tuple_len a r prime res_list =
     (case get_hash_with_args (IRNode_hash obj) a r tuple_len prime of
        Inl e \<Rightarrow> Inl e
      | Inr h \<Rightarrow>
          if \<not> in_res_list obj res_list then
            (if h < length res_list then
               (if res_list ! h = None
                then gen_res_loop objs tuple_len a r prime (res_list[h := Some obj])
                else Inr (True, res_list))
             else Inl IndexError)
          else Inr (True, res_list))"

definition gen_res_a_r_phf ::
  "('td, 'fd) IRNode list \<Rightarrow> nat \<Rightarrow> int \<Rightarrow> nat \<Rightarrow> nat \<Rightarrow> error + ('td, 'fd) IRNode list" where
  "gen_res_a_r_phf group_tuple tuple_len a r prime =
     (case gen_res_loop group_tuple tuple_len a r prime (replicate tuple_len None) of
        Inl e \<Rightarrow> Inl e
      | Inr (collision, res_list) \<Rightarrow>
          if \<not> collision \<and> None \<notin> set res_list then Inr (map the res_list) else Inr [])"

text \<open>
  \<^verbatim>\<open>gen_phf\<close>: the two nested \<^verbatim>\<open>for\<close> loops, \<^verbatim>\<open>r\<close> inside \<^verbatim>\<open>a\<close>. The inner loop
  returns \<open>None\<close> when it has tried every \<^verbatim>\<open>r\<close> below the limit without a result;
  \<^verbatim>\<open>if res_list:\<close> is the test that the tuple is not empty.
\<close>

function gen_phf_r ::
  "('td, 'fd) IRNode list \<Rightarrow> nat \<Rightarrow> nat \<Rightarrow> nat \<Rightarrow> int \<Rightarrow> nat
     \<Rightarrow> error + (('td, 'fd) IRNode list \<times> ResultPHF) option" where
  "gen_phf_r group_tuple tuple_len prime r_limit a r =
     (if r < r_limit then
        (case gen_res_a_r_phf group_tuple tuple_len a r prime of
           Inl e \<Rightarrow> Inl e
         | Inr res_list \<Rightarrow>
             if res_list \<noteq> []
             then Inr (Some (res_list, \<lparr>phf_a = a, phf_r = r, phf_prime = prime, phf_n = tuple_len\<rparr>))
             else gen_phf_r group_tuple tuple_len prime r_limit a (Suc r))
      else Inr None)"
  by pat_completeness auto
termination
  by (relation "measure (\<lambda>(g, n, p, rl, a, r). rl - r)") auto

function gen_phf_a ::
  "('td, 'fd) IRNode list \<Rightarrow> nat \<Rightarrow> nat \<Rightarrow> nat \<Rightarrow> int
     \<Rightarrow> error + (('td, 'fd) IRNode list \<times> ResultPHF)" where
  "gen_phf_a group_tuple tuple_len prime r_limit a =
     (if a < PHF_A_LIMIT then
        (case gen_phf_r group_tuple tuple_len prime r_limit a 0 of
           Inl e \<Rightarrow> Inl e
         | Inr (Some res) \<Rightarrow> Inr res
         | Inr None \<Rightarrow> gen_phf_a group_tuple tuple_len prime r_limit (a + 1))
      else Inl (ValueError ''could not find satisfactory parameter values to generate the PHF''))"
  by pat_completeness auto
termination
  by (relation "measure (\<lambda>(g, n, p, rl, a). nat (PHF_A_LIMIT - a))") auto

declare gen_phf_r.simps [simp del] gen_phf_a.simps [simp del]

definition gen_phf ::
  "int \<Rightarrow> ('td, 'fd) IRNode list \<Rightarrow> error + (('td, 'fd) IRNode list \<times> ResultPHF)" where
  "gen_phf maxsize group_tuple =
     (let tuple_len = length group_tuple;
          prime = get_phf_prime tuple_len
      in gen_phf_a group_tuple tuple_len prime (PHF_R_LIMIT maxsize) 1)"

text \<open>
  \<^verbatim>\<open>NodeSet\<close>. The constructor tests the class of every element; what counts as an
  \<^verbatim>\<open>IRNode\<close> among the elements is the predicate \<open>is_IRNode\<close>, and the \<^verbatim>\<open>phf\<close>
  argument is \<^verbatim>\<open>None\<close>, a \<^verbatim>\<open>ResultPHF\<close> or another object. In Python \<^verbatim>\<open>and\<close> binds
  tighter than \<^verbatim>\<open>or\<close>.
\<close>

datatype phf_arg = PhfNone | PhfResult ResultPHF | PhfOther

record 'e NodeSet =
  ns_data :: "'e list"
  ns_phf :: "ResultPHF option"

fun is_ResultPHF :: "phf_arg \<Rightarrow> bool" where
  "is_ResultPHF (PhfResult p) = True"
| "is_ResultPHF _ = False"

fun phf_value :: "phf_arg \<Rightarrow> ResultPHF option" where
  "phf_value (PhfResult p) = Some p"
| "phf_value _ = None"

definition NodeSet_init :: "('e \<Rightarrow> bool) \<Rightarrow> 'e list \<Rightarrow> phf_arg \<Rightarrow> error + 'e NodeSet" where
  "NodeSet_init is_IRNode data phf =
     (if (list_all is_IRNode data \<and> is_ResultPHF phf) \<or> phf = PhfNone
      then Inr \<lparr>ns_data = data, ns_phf = phf_value phf\<rparr>
      else Inl (ValueError ''node set accepts only IRNode instances''))"

definition NodeSet_new_set :: "('e \<Rightarrow> bool) \<Rightarrow> 'e list \<Rightarrow> ResultPHF \<Rightarrow> error + 'e NodeSet" where
  "NodeSet_new_set is_IRNode data phf = NodeSet_init is_IRNode data (PhfResult phf)"

text \<open>
  \<^verbatim>\<open>NodeSet.__contains__\<close> on an identity: some node's identity equals it.
  \<^verbatim>\<open>NodeSet.__getitem__\<close> on an identity: the slot the PHF gives for its hash.
\<close>

definition NodeSet_contains_IRHash :: "IRHash \<Rightarrow> ('td, 'fd) IRNode NodeSet \<Rightarrow> bool" where
  "NodeSet_contains_IRHash item ns = list_ex (\<lambda>node. IRHash_eq item (node_irhash node)) (ns_data ns)"

definition NodeSet_getitem ::
  "('td, 'fd) IRNode NodeSet \<Rightarrow> IRHash \<Rightarrow> error + ('td, 'fd) IRNode" where
  "NodeSet_getitem ns item =
     (case ns_phf ns of
        None \<Rightarrow> Inl (ValueError ''node set must have phf attribute defined and item hash must not be null'')
      | Some phf \<Rightarrow>
          (case get_hash (irh_uid item) phf of
             Inl e \<Rightarrow> Inl e
           | Inr res \<Rightarrow> if res < length (ns_data ns) then Inr (ns_data ns ! res) else Inl IndexError))"

section \<open>The graph (core/code/ir_graph.py)\<close>

text \<open>
  \<^verbatim>\<open>IRGraph\<close>: the state of a graph. \<^verbatim>\<open>_main_node\<close> has no value until
  \<^verbatim>\<open>add_main_node\<close> sets it. Every method takes the state and returns the state it
  leaves, next to its result or the error it raised.
\<close>

record ('td, 'fd) IRGraph =
  is_built :: bool
  nodes :: "('td, 'fd) IRNode NodeSet"
  tmp_nodes :: "('td, 'fd) IRNode list"
  main_node :: "IRHash option"

definition IRGraph_init :: "('td, 'fd) IRGraph" where
  "IRGraph_init =
     \<lparr>is_built = False, nodes = \<lparr>ns_data = [], ns_phf = None\<rparr>, tmp_nodes = [], main_node = None\<rparr>"

definition add_node ::
  "(Path \<Rightarrow> int) \<Rightarrow> ('td, 'fd) IR \<Rightarrow> ('td, 'fd) IRGraph \<Rightarrow> IRHash \<times> ('td, 'fd) IRGraph" where
  "add_node H ir g =
     (let node = IRNode_init H ir
      in (node_irhash node, g\<lparr>tmp_nodes := tmp_nodes g @ [node]\<rparr>))"

definition add_main_node ::
  "(Path \<Rightarrow> int) \<Rightarrow> ('td, 'fd) IR \<Rightarrow> ('td, 'fd) IRGraph \<Rightarrow> IRHash \<times> ('td, 'fd) IRGraph" where
  "add_main_node H ir g =
     (case add_node H ir g of (h, g') \<Rightarrow> (h, g'\<lparr>main_node := Some h\<rparr>))"

text \<open>
  \<^verbatim>\<open>_check_refs\<close>: for every node of the node set, every identity of its type
  references and then of its function references must be in the node set; the first one
  that is not makes the method return \<^verbatim>\<open>False\<close>.
\<close>

definition check_refs :: "('td, 'fd) IRGraph \<Rightarrow> bool" where
  "check_refs g =
     list_all (\<lambda>node.
        list_all (\<lambda>(_, irhash). NodeSet_contains_IRHash irhash (nodes g))
          (rt_types (ir_ref_table (node_ir node)))
        \<and> list_all (\<lambda>(_, irhash). NodeSet_contains_IRHash irhash (nodes g))
          (rt_fns (ir_ref_table (node_ir node))))
       (ns_data (nodes g))"

text \<open>
  \<^verbatim>\<open>build\<close>. The node set is replaced and the building tuple emptied before the
  references are checked, so a failed check leaves both changes behind. Every element
  handed to \<^verbatim>\<open>NodeSet.new_set\<close> is a node.
\<close>

definition build ::
  "int \<Rightarrow> ('td, 'fd) IRGraph \<Rightarrow> (error + unit) \<times> ('td, 'fd) IRGraph" where
  "build maxsize g =
     (if \<not> is_built g \<and> length (tmp_nodes g) > 0 then
        (case gen_phf maxsize (tmp_nodes g) of
           Inl e \<Rightarrow> (Inl e, g)
         | Inr (node_res, node_phf) \<Rightarrow>
             (case NodeSet_new_set (\<lambda>_. True) node_res node_phf of
                Inl e \<Rightarrow> (Inl e, g)
              | Inr ns \<Rightarrow>
                  (let g1 = g\<lparr>nodes := ns, tmp_nodes := []\<rparr>
                   in if check_refs g1 then (Inr (), g1\<lparr>is_built := True\<rparr>)
                      else (Inl (ValueError ''missing nodes to build the ir graph''), g1))))
      else (Inl (ValueError ''ir graph is already built or no nodes were found''), g))"



text \<open>
  \<^verbatim>\<open>IRGraph.__contains__\<close>: both loops run over the building tuple only. The first
  accepts a \<^verbatim>\<open>Symbol\<close> or a \<^verbatim>\<open>FnHeader\<close> (not a \<^verbatim>\<open>CompositeSymbol\<close>), the second
  a path; for an object of any other class (\<^const>\<open>Other\<close>) neither loop runs.
\<close>

fun contains_scan :: "(Item \<Rightarrow> int) \<Rightarrow> Item \<Rightarrow> ('td, 'fd) IRNode list \<Rightarrow> error + bool" where
  "contains_scan hash_of item [] = Inr False"
| "contains_scan hash_of item (tmp_node # rest) =
     (case IRNode_contains hash_of item tmp_node of
        Inl e \<Rightarrow> Inl e
      | Inr True \<Rightarrow> Inr True
      | Inr False \<Rightarrow> contains_scan hash_of item rest)"

fun IRGraph_contains ::
  "(Item \<Rightarrow> int) \<Rightarrow> Item arg \<Rightarrow> ('td, 'fd) IRGraph \<Rightarrow> error + bool" where
  "IRGraph_contains hash_of (Obj (ItemName (Symbol s))) g =
     contains_scan hash_of (ItemName (Symbol s)) (tmp_nodes g)"
| "IRGraph_contains hash_of (Obj (ItemFn h)) g = contains_scan hash_of (ItemFn h) (tmp_nodes g)"
| "IRGraph_contains hash_of (Obj (ItemPath p)) g = contains_scan hash_of (ItemPath p) (tmp_nodes g)"
| "IRGraph_contains hash_of _ g = Inr False"

section \<open>Example units\<close>

text \<open>
  The units of the specification's scenarios, for evaluating the definitions: unit A at
  \<^verbatim>\<open>src/a\<close> defines \<^verbatim>\<open>add(int, int)\<close>; unit B at \<^verbatim>\<open>src/b\<close> references it against A's
  identity; unit C at \<^verbatim>\<open>src/c\<close> references a type of a unit D that is never added.
  Unit E at \<^verbatim>\<open>src/e\<close> defines \<^verbatim>\<open>add(int, int)\<close>, then \<^verbatim>\<open>add(float, float)\<close>, and then
  \<^verbatim>\<open>add(int, int)\<close> once more. \<open>example_hash\<close> stands for Python's hash of a path and
  \<open>example_item_hash\<close> for its hash of a name, a header or a path.
\<close>

definition example_hash :: "Path \<Rightarrow> int" where
  "example_hash p =
     (if p = ''src/a'' then 11 else if p = ''src/b'' then 20
      else if p = ''src/c'' then 6 else if p = ''src/d'' then 5 else int (length p))"

definition add_int_int :: FnHeader where
  "add_int_int = FnHeader (Symbol ''add'') [Symbol ''int'', Symbol ''int'']"

definition unit_a :: "(unit, unit) IR" where
  "unit_a =
     \<lparr>ir_ref_table = \<lparr>rt_types = [], rt_fns = []\<rparr>,
      ir_module = \<lparr>mod_path = ''src/a'',
        mod_symbol_table = \<lparr>st_type = [], st_fn = FnTable_add [] add_int_int (Obj ())\<rparr>\<rparr>\<rparr>"

definition unit_b :: "(unit, unit) IR" where
  "unit_b =
     \<lparr>ir_ref_table =
        \<lparr>rt_types = [], rt_fns = [(add_int_int, IRHash_init example_hash ''src/a'')]\<rparr>,
      ir_module = \<lparr>mod_path = ''src/b'', mod_symbol_table = \<lparr>st_type = [], st_fn = []\<rparr>\<rparr>\<rparr>"

definition unit_c :: "(unit, unit) IR" where
  "unit_c =
     \<lparr>ir_ref_table =
        \<lparr>rt_types = [(Symbol ''point'', IRHash_init example_hash ''src/d'')], rt_fns = []\<rparr>,
      ir_module = \<lparr>mod_path = ''src/c'', mod_symbol_table = \<lparr>st_type = [], st_fn = []\<rparr>\<rparr>\<rparr>"

definition graph_ab :: "(unit, unit) IRGraph" where
  "graph_ab =
     snd (add_main_node example_hash unit_b (snd (add_node example_hash unit_a IRGraph_init)))"

definition graph_c :: "(unit, unit) IRGraph" where
  "graph_c = snd (add_main_node example_hash unit_c IRGraph_init)"

definition graph_aa :: "(unit, unit) IRGraph" where
  "graph_aa =
     snd (add_node example_hash unit_a (snd (add_node example_hash unit_a IRGraph_init)))"

definition example_item_hash :: "Item \<Rightarrow> int" where
  "example_item_hash item =
     (case item of
        ItemPath p \<Rightarrow> example_hash p
      | ItemName (Symbol s) \<Rightarrow> 1000 + int (length s)
      | ItemName (CompositeSymbol ss) \<Rightarrow> 2000 + int (length ss)
      | ItemFn h \<Rightarrow> 3000 + int (length (fh_args_types h)))"





section \<open>The prime of a size class\<close>

lemma no_small_odd_divisor:
  "list_all (\<lambda>k. (1048583::int) mod (2 * k + 1) \<noteq> 0) [1..511]"
  by code_simp

lemma no_small_divisor:
  assumes "e dvd (1048583::nat)" "2 \<le> e" "e < 1025"
  shows False
proof (cases "even e")
  case True
  then have "2 dvd (1048583::nat)" using assms(1) by (rule dvd_trans)
  then show False by simp
next
  case False
  then obtain k where k: "e = 2 * k + 1" by (auto elim: oddE)
  with assms have "int k \<in> set [1..511]" by auto
  then have mem: "int k \<in> set [1..511]" .
  have "\<forall>j\<in>set [1..511]. (1048583::int) mod (2 * j + 1) \<noteq> 0"
    using no_small_odd_divisor by (simp only: list_all_iff)
  then have "(1048583::int) mod (2 * int k + 1) \<noteq> 0"
    using mem by (rule bspec)
  moreover have "int e dvd int 1048583" using assms(1) by (simp only: int_dvd_int_iff)
  ultimately show False using k by (simp add: dvd_eq_mod_eq_0 add.commute)
qed

lemma fallback_prime_divisors:
  assumes "d dvd (1048583::nat)"
  shows "d = 1 \<or> d = 1048583"
proof -
  obtain k where k: "1048583 = d * k" using assms by (auto simp: dvd_def)
  have dk: "d dvd 1048583" "k dvd 1048583" by (simp_all only: k dvd_triv_left dvd_triv_right)
  have "d * k \<noteq> 0" using k by simp
  then have pos: "d \<noteq> 0" "k \<noteq> 0" by simp_all
  show ?thesis
  proof (cases "d < 1025")
    case True
    with no_small_divisor[OF dk(1)] pos have "d = 1" by (cases "2 \<le> d") auto
    then show ?thesis by simp
  next
    case False
    then have "1025 \<le> d" by simp
    have "k < 1025"
    proof (rule ccontr)
      assume "\<not> k < 1025"
      then have "1025 \<le> k" by simp
      with \<open>1025 \<le> d\<close> have "1025 * 1025 \<le> d * k" by (rule mult_le_mono)
      with k show False by simp
    qed
    with no_small_divisor[OF dk(2)] pos have "k = 1" by (cases "2 \<le> k") auto
    with k show ?thesis by simp
  qed
qed

text \<open>
  Claim C7. For every item count \<open>n\<close> the prime selection returns 37 when \<open>n \<le> 32\<close>,
  67 when \<open>32 < n \<le> 64\<close>, 257 when \<open>64 < n \<le> 256\<close>, 4099 when \<open>256 < n \<le> 4096\<close>,
  16411 when \<open>4096 < n \<le> 16384\<close>, and otherwise 1048583, which is larger than 16411 and
  is a prime: its only divisors are 1 and itself.
\<close>

theorem get_phf_prime_classes:
  "get_phf_prime n =
     (if n \<le> 32 then 37 else if n \<le> 64 then 67 else if n \<le> 256 then 257
      else if n \<le> 4096 then 4099 else if n \<le> 16384 then 16411 else 1048583)
   \<and> (16411::nat) < 1048583
   \<and> {d::nat. d dvd 1048583} = {1, 1048583}"
proof -
  have "{d::nat. d dvd 1048583} = {1, 1048583}"
    using fallback_prime_divisors by auto
  then show ?thesis by (simp add: get_phf_prime_def)
qed

section \<open>Symbol tables and the node set constructor\<close>

lemma od_set_absent: "map_of d k = None \<Longrightarrow> od_set d k v = d @ [(k, v)]"
  by (induction d) (auto split: if_splits)

text \<open>
  Claim C8. \<^verbatim>\<open>TypeTable.add\<close> with a name and a definition of the right classes never
  raises; when the name is already in the table the table is returned as it was (the
  stored definition is kept), and when the name is absent the new pair is appended at
  the end of the insertion order.
\<close>

theorem TypeTable_add_idempotent_if_absent:
  "TypeTable_add t (Obj name) (Obj data) =
     Inr (if od_in name t then t else t @ [(name, data)])"
  by (simp add: TypeTable_add_def od_in_def od_set_absent)

text \<open>
  Claim C10. With \<^verbatim>\<open>phf = None\<close> the \<^verbatim>\<open>NodeSet\<close> constructor accepts every tuple of
  elements, whatever \<open>is_IRNode\<close> says of them; with a \<^verbatim>\<open>ResultPHF\<close> it raises
  exactly when some element is not an \<^verbatim>\<open>IRNode\<close>, and stores the tuple otherwise.
\<close>

theorem NodeSet_init_type_check:
  "NodeSet_init is_IRNode data PhfNone = Inr \<lparr>ns_data = data, ns_phf = None\<rparr>
   \<and> NodeSet_init is_IRNode data (PhfResult p) =
       (if \<exists>k\<in>set data. \<not> is_IRNode k
        then Inl (ValueError ''node set accepts only IRNode instances'')
        else Inr \<lparr>ns_data = data, ns_phf = Some p\<rparr>)"
  by (auto simp: NodeSet_init_def list_all_iff)

text \<open>
  Claim C3, at a value that reports itself as constant: \<^verbatim>\<open>ConstTable.add\<close> stores it
  under its name and then raises all the same.
\<close>

theorem ConstTable_add_constant_raises:
  "ConstTable_add [] \<lparr>dd_name = Symbol ''pi'', dd_is_constant = True, dd_data = ()\<rparr> =
     (Inl (ValueError ''data must be constant to be added to ConstTable''),
      [(Symbol ''pi'', \<lparr>dd_name = Symbol ''pi'', dd_is_constant = True, dd_data = ()\<rparr>)])"
  by (simp add: ConstTable_add_def)

section \<open>Building the graph\<close>

lemma build_success:
  assumes "build maxsize g = (Inr (), g')"
  shows "\<not> is_built g" "tmp_nodes g \<noteq> []" "is_built g'" "tmp_nodes g' = []"
    "\<exists>node_res node_phf. gen_phf maxsize (tmp_nodes g) = Inr (node_res, node_phf)
        \<and> nodes g' = \<lparr>ns_data = node_res, ns_phf = Some node_phf\<rparr>
        \<and> check_refs (g\<lparr>nodes := nodes g', tmp_nodes := []\<rparr>)
        \<and> g' = g\<lparr>nodes := nodes g', tmp_nodes := [], is_built := True\<rparr>"
  using assms
  by (auto simp: build_def Let_def NodeSet_new_set_def NodeSet_init_def
      split: if_splits sum.splits prod.splits)

text \<open>
  Claim C5. \<^verbatim>\<open>build()\<close> on a graph that is already built raises and returns the graph
  as it was: frozen node set, PHF parameters and every other field. It does the same on
  a graph whose building tuple is empty. In particular a second \<^verbatim>\<open>build()\<close> after a
  successful one raises and changes nothing.
\<close>

theorem build_twice_or_empty_fails:
  "(is_built g \<longrightarrow>
      build maxsize g = (Inl (ValueError ''ir graph is already built or no nodes were found''), g))
   \<and> (tmp_nodes g = [] \<longrightarrow>
      build maxsize g = (Inl (ValueError ''ir graph is already built or no nodes were found''), g))
   \<and> (build maxsize g = (Inr (), g') \<longrightarrow>
      build maxsize' g' = (Inl (ValueError ''ir graph is already built or no nodes were found''), g'))"
proof -
  have "build maxsize' g' = (Inl (ValueError ''ir graph is already built or no nodes were found''), g')"
    if "build maxsize g = (Inr (), g')"
    using build_success(3)[OF that] by (simp add: build_def)
  then show ?thesis by (simp add: build_def)
qed

theorem build_twice_or_empty_fails_witness:
  "build (2 ^ 63 - 1) graph_ab = (Inr (), snd (build (2 ^ 63 - 1) graph_ab))
   \<and> is_built (snd (build (2 ^ 63 - 1) graph_ab))
   \<and> build (2 ^ 63 - 1) (snd (build (2 ^ 63 - 1) graph_ab)) =
       (Inl (ValueError ''ir graph is already built or no nodes were found''),
        snd (build (2 ^ 63 - 1) graph_ab))
   \<and> tmp_nodes (IRGraph_init :: (unit, unit) IRGraph) = []
   \<and> build (2 ^ 63 - 1) (IRGraph_init :: (unit, unit) IRGraph) =
       (Inl (ValueError ''ir graph is already built or no nodes were found''), IRGraph_init)"
proof -
  have b: "build (2 ^ 63 - 1) graph_ab = (Inr (), snd (build (2 ^ 63 - 1) graph_ab))"
    by code_simp
  have e: "tmp_nodes (IRGraph_init :: (unit, unit) IRGraph) = []"
    by (simp add: IRGraph_init_def)
  have i: "is_built (snd (build (2 ^ 63 - 1) graph_ab))"
    by code_simp
  show ?thesis
    using b e i
      build_twice_or_empty_fails [of graph_ab "2 ^ 63 - 1" "snd (build (2 ^ 63 - 1) graph_ab)" "2 ^ 63 - 1"]
      build_twice_or_empty_fails [of "snd (build (2 ^ 63 - 1) graph_ab)" "2 ^ 63 - 1" graph_ab "2 ^ 63 - 1"]
      build_twice_or_empty_fails [of "IRGraph_init :: (unit, unit) IRGraph" "2 ^ 63 - 1" graph_ab "2 ^ 63 - 1"]
    by simp
qed

text \<open>
  Claim C9. After a successful \<^verbatim>\<open>build()\<close> the containment test of the graph answers
  \<^verbatim>\<open>False\<close> for every item (path, symbol, function header or other object), the paths
  of the frozen nodes included: it scans the building tuple, which \<^verbatim>\<open>build()\<close> has
  emptied.
\<close>

theorem contains_after_build:
  assumes "build maxsize g = (Inr (), g')"
  shows "IRGraph_contains hash_of item g' = Inr False"
proof -
  have "tmp_nodes g' = []" using assms by (rule build_success(4))
  then show ?thesis by (cases "(hash_of, item, g')" rule: IRGraph_contains.cases) simp_all
qed

theorem contains_after_build_witness:
  "build (2 ^ 63 - 1) graph_ab = (Inr (), snd (build (2 ^ 63 - 1) graph_ab))
   \<and> IRGraph_contains example_item_hash (Obj (ItemPath ''src/a'')) graph_ab = Inr True
   \<and> IRGraph_contains example_item_hash (Obj (ItemPath ''src/a''))
        (snd (build (2 ^ 63 - 1) graph_ab)) = Inr False
   \<and> IRGraph_contains example_item_hash (Obj (ItemName (Symbol ''add'')))
        (snd (build (2 ^ 63 - 1) graph_ab)) = Inr False
   \<and> IRGraph_contains example_item_hash (Obj (ItemFn add_int_int))
        (snd (build (2 ^ 63 - 1) graph_ab)) = Inr False"
proof -
  have b: "build (2 ^ 63 - 1) graph_ab = (Inr (), snd (build (2 ^ 63 - 1) graph_ab))"
    by code_simp
  have pre: "IRGraph_contains example_item_hash (Obj (ItemPath ''src/a'')) graph_ab = Inr True"
    by code_simp
  show ?thesis
    using b pre contains_after_build [OF b] by simp
qed

section \<open>The search for the perfect hash function\<close>

lemma get_hash_with_args_h:
  assumes "0 < n" "0 < prime"
  shows "get_hash_with_args v a r n prime = Inr (phf_h a r prime n v)"
    and "phf_h a r prime n v < n"
  using assms by (simp_all add: get_hash_with_args_def phf_h_def Let_def nat_less_iff)

lemma get_hash_h:
  assumes "0 < phf_n phf" "0 < phf_prime phf"
  shows "get_hash v phf = Inr (phf_h (phf_a phf) (phf_r phf) (phf_prime phf) (phf_n phf) v)"
  using assms by (simp add: get_hash_def phf_h_def Let_def)

lemma in_res_list_iff:
  "in_res_list obj res \<longleftrightarrow> (\<exists>i<length res. \<exists>y. res ! i = Some y \<and> node_uid y = node_uid obj)"
proof
  assume "in_res_list obj res"
  then obtain e where e: "e \<in> set res" "case e of None \<Rightarrow> False | Some y \<Rightarrow> IRNode_eq y obj"
    by (auto simp: in_res_list_def list_ex_iff)
  from e(2) obtain y where y: "e = Some y" "node_uid y = node_uid obj"
    by (cases e) (auto simp: IRNode_eq_def IRNode_hash_def)
  from e(1) obtain i where "i < length res" "res ! i = e" by (auto simp: in_set_conv_nth)
  with y show "\<exists>i<length res. \<exists>y. res ! i = Some y \<and> node_uid y = node_uid obj" by auto
next
  assume "\<exists>i<length res. \<exists>y. res ! i = Some y \<and> node_uid y = node_uid obj"
  then obtain i y where iy: "i < length res" "res ! i = Some y" "node_uid y = node_uid obj" by auto
  then have "Some y \<in> set res" by (metis nth_mem)
  moreover have "case Some y of None \<Rightarrow> False | Some y \<Rightarrow> IRNode_eq y obj"
    using iy(3) by (simp add: IRNode_eq_def IRNode_hash_def)
  ultimately show "in_res_list obj res"
    unfolding in_res_list_def list_ex_iff by (rule bexI[rotated])
qed

lemma gen_res_loop_sound:
  assumes "0 < n" "0 < prime"
    and "length res = n"
    and "gen_res_loop g n a r prime res = Inr (False, res')"
  shows "length res' = n
    \<and> distinct (map (\<lambda>x. phf_h a r prime n (node_uid x)) g)
    \<and> (\<forall>x\<in>set g. res ! phf_h a r prime n (node_uid x) = None
                  \<and> res' ! phf_h a r prime n (node_uid x) = Some x)
    \<and> (\<forall>i<n. i \<notin> (\<lambda>x. phf_h a r prime n (node_uid x)) ` set g \<longrightarrow> res' ! i = res ! i)"
  using assms(3,4)
proof (induction g arbitrary: res)
  case Nil
  then show ?case by simp
next
  case (Cons obj objs)
  let ?h = "\<lambda>x. phf_h a r prime n (node_uid x)"
  have hlt: "?h obj < n" using assms(1,2) by (rule get_hash_with_args_h(2))
  from Cons.prems(2) have free: "res ! ?h obj = None"
    and rec: "gen_res_loop objs n a r prime (res[?h obj := Some obj]) = Inr (False, res')"
    using Cons.prems(1) hlt
    by (auto simp: get_hash_with_args_h(1)[OF assms(1,2)] IRNode_hash_def split: if_splits)
  have len: "length (res[?h obj := Some obj]) = n" using Cons.prems(1) by simp
  note IH = Cons.IH[OF len rec]
  from IH have IH1: "length res' = n" by (rule conjunct1)
  from IH have IH2: "distinct (map ?h objs)" by (elim conjE)
  from IH have IH3: "\<And>x. x \<in> set objs \<Longrightarrow> (res[?h obj := Some obj]) ! ?h x = None \<and> res' ! ?h x = Some x"
    by (elim conjE) (erule bspec)
  from IH have IH4: "\<And>i. i < n \<Longrightarrow> i \<notin> ?h ` set objs \<Longrightarrow> res' ! i = (res[?h obj := Some obj]) ! i"
    by (elim conjE) simp
  have notin: "?h obj \<notin> ?h ` set objs"
  proof
    assume "?h obj \<in> ?h ` set objs"
    then obtain x where x: "x \<in> set objs" "?h x = ?h obj" by auto
    from IH3[OF x(1)] have "(res[?h obj := Some obj]) ! ?h x = None" by simp
    with x(2) hlt Cons.prems(1) show False by simp
  qed
  have at_obj: "res' ! ?h obj = Some obj"
  proof -
    from IH4[OF hlt notin] have "res' ! ?h obj = (res[?h obj := Some obj]) ! ?h obj" .
    then show ?thesis using hlt Cons.prems(1) by simp
  qed
  have others: "res ! ?h x = None \<and> res' ! ?h x = Some x" if "x \<in> set objs" for x
  proof -
    have ne: "?h x \<noteq> ?h obj"
    proof
      assume eq: "?h x = ?h obj"
      have "?h x \<in> ?h ` set objs" using that by (rule imageI)
      with eq notin show False by simp
    qed
    from IH3[OF that] have "(res[?h obj := Some obj]) ! ?h x = None" "res' ! ?h x = Some x" by simp_all
    then show ?thesis using ne by simp
  qed
  have frame: "res' ! i = res ! i" if "i < n" "i \<notin> ?h ` set (obj # objs)" for i
  proof -
    from that have "i \<noteq> ?h obj" "i \<notin> ?h ` set objs" by auto
    with IH4[OF that(1)] have "res' ! i = (res[?h obj := Some obj]) ! i" by simp
    then show ?thesis using \<open>i \<noteq> ?h obj\<close> by simp
  qed
  show ?case using IH1 IH2 notin at_obj free others frame by auto
qed


lemma gen_res_loop_total:
  assumes "0 < n" "0 < prime" and "length res = n"
  shows "\<exists>c res'. gen_res_loop g n a r prime res = Inr (c, res')"
  using assms(3)
proof (induction g arbitrary: res)
  case Nil
  then show ?case by auto
next
  case (Cons obj objs)
  let ?h = "\<lambda>x. phf_h a r prime n (node_uid x)"
  have hlt: "?h obj < n" using assms(1,2) by (rule get_hash_with_args_h(2))
  have len: "length (res[?h obj := Some obj]) = n" using Cons.prems by simp
  from Cons.IH[OF len] show ?case
    using hlt Cons.prems
    by (auto simp: get_hash_with_args_h(1)[OF assms(1,2)] IRNode_hash_def)
qed

lemma gen_res_loop_complete:
  assumes "0 < n" "0 < prime"
    and "length res = n"
    and "distinct (map (\<lambda>x. phf_h a r prime n (node_uid x)) g)"
    and "\<And>x. x \<in> set g \<Longrightarrow> res ! phf_h a r prime n (node_uid x) = None"
    and "\<And>i y. i < n \<Longrightarrow> res ! i = Some y \<Longrightarrow> phf_h a r prime n (node_uid y) = i"
  shows "\<exists>res'. gen_res_loop g n a r prime res = Inr (False, res')"
  using assms(3-6)
proof (induction g arbitrary: res)
  case Nil
  then show ?case by simp
next
  case (Cons obj objs)
  let ?h = "\<lambda>x. phf_h a r prime n (node_uid x)"
  let ?res = "res[?h obj := Some obj]"
  have hlt: "?h obj < n" using assms(1,2) by (rule get_hash_with_args_h(2))
  have free: "res ! ?h obj = None" using Cons.prems(3) by simp
  have notin: "\<not> in_res_list obj res"
  proof
    assume "in_res_list obj res"
    then obtain i y where iy: "i < length res" "res ! i = Some y" "node_uid y = node_uid obj"
      unfolding in_res_list_iff by blast
    from iy(1,2) Cons.prems(1) have "?h y = i" using Cons.prems(4) by simp
    with iy(3) have "?h obj = i" by simp
    with iy(2) free show False by simp
  qed
  have len: "length ?res = n" using Cons.prems(1) by simp
  have dist: "distinct (map ?h objs)" using Cons.prems(2) by simp
  have empty: "?res ! ?h x = None" if "x \<in> set objs" for x
  proof -
    have "?h x \<in> ?h ` set objs" using that by (rule imageI)
    with Cons.prems(2) have "?h x \<noteq> ?h obj" by auto
    moreover have "res ! ?h x = None" using that Cons.prems(3) by simp
    ultimately show ?thesis by simp
  qed
  have inv: "?h y = i" if "i < n" "?res ! i = Some y" for i y
  proof (cases "i = ?h obj")
    case True
    with that Cons.prems(1) have "y = obj" by simp
    with True show ?thesis by simp
  next
    case False
    with that have "res ! i = Some y" by simp
    with that(1) show ?thesis using Cons.prems(4) by simp
  qed
  from Cons.IH[OF len dist empty inv] obtain res' where
    "gen_res_loop objs n a r prime ?res = Inr (False, res')" by blast
  then show ?case
    using hlt notin free Cons.prems(1)
    by (simp add: get_hash_with_args_h(1)[OF assms(1,2)] IRNode_hash_def)
qed

text \<open>The result of one candidate.\<close>

lemma gen_res_a_r_phf_empty:
  "gen_res_a_r_phf [] 0 a r prime = Inr []"
  by (simp add: gen_res_a_r_phf_def)

lemma gen_res_a_r_phf_cases:
  assumes "0 < prime" "g \<noteq> []"
  shows "(distinct (map (\<lambda>x. phf_h a r prime (length g) (node_uid x)) g)
          \<and> (\<exists>res. gen_res_a_r_phf g (length g) a r prime = Inr res \<and> length res = length g
                \<and> set res = set g
                \<and> (\<forall>x\<in>set g. res ! phf_h a r prime (length g) (node_uid x) = x)))
       \<or> (\<not> distinct (map (\<lambda>x. phf_h a r prime (length g) (node_uid x)) g)
          \<and> gen_res_a_r_phf g (length g) a r prime = Inr [])"
proof -
  let ?n = "length g"
  let ?h = "\<lambda>x. phf_h a r prime ?n (node_uid x)"
  let ?init = "replicate ?n (None :: ('a, 'b) IRNode option)"
  have n: "0 < ?n" using assms(2) by simp
  have len0: "length ?init = ?n" by simp
  show ?thesis
  proof (cases "distinct (map ?h g)")
    case True
    have e0: "\<And>x. x \<in> set g \<Longrightarrow> ?init ! ?h x = None"
      using get_hash_with_args_h(2)[OF n assms(1)] by simp
    have i0: "\<And>i y. i < ?n \<Longrightarrow> ?init ! i = Some y \<Longrightarrow> ?h y = i" by simp
    from gen_res_loop_complete[OF n assms(1) len0 True e0 i0] obtain res' where
      loop: "gen_res_loop g ?n a r prime ?init = Inr (False, res')" by blast
    note S = gen_res_loop_sound[OF n assms(1) len0 loop]
    from S have len: "length res' = ?n" by (rule conjunct1)
    from S have at: "\<And>x. x \<in> set g \<Longrightarrow> res' ! ?h x = Some x" by (elim conjE) simp
    have "card (?h ` set g) = ?n" using True by (metis distinct_card length_map set_map)
    moreover have "?h ` set g \<subseteq> {..<?n}"
      using get_hash_with_args_h(2)[OF n assms(1)] by auto
    ultimately have surj: "?h ` set g = {..<?n}" by (simp add: card_subset_eq)
    have full: "\<exists>x\<in>set g. ?h x = i \<and> res' ! i = Some x" if "i < ?n" for i
    proof -
      from that surj have "i \<in> ?h ` set g" by simp
      then obtain x where "x \<in> set g" "i = ?h x" by auto
      with at[of x] show ?thesis by auto
    qed
    have noNone: "None \<notin> set res'"
    proof
      assume "None \<in> set res'"
      then obtain i where "i < length res'" "res' ! i = None" by (auto simp: in_set_conv_nth)
      with full[of i] len show False by auto
    qed
    have res: "gen_res_a_r_phf g ?n a r prime = Inr (map the res')"
      using loop noNone by (simp add: gen_res_a_r_phf_def)
    have at': "(map the res') ! ?h x = x" if "x \<in> set g" for x
      using at[OF that] get_hash_with_args_h(2)[OF n assms(1), of a r "node_uid x"] len by simp
    have "set (map the res') = set g"
    proof
      show "set (map the res') \<subseteq> set g"
      proof
        fix y assume "y \<in> set (map the res')"
        then obtain i where i: "i < ?n" "y = the (res' ! i)"
          using len by (auto simp: in_set_conv_nth)
        with full[of i] show "y \<in> set g" by auto
      qed
      show "set g \<subseteq> set (map the res')"
      proof
        fix x assume x: "x \<in> set g"
        have "?h x < length (map the res')"
          using get_hash_with_args_h(2)[OF n assms(1), of a r "node_uid x"] len by simp
        then have "(map the res') ! ?h x \<in> set (map the res')" by (rule nth_mem)
        with at'[OF x] show "x \<in> set (map the res')" by simp
      qed
    qed
    with True res len at' show ?thesis by auto
  next
    case False
    obtain c res' where loop: "gen_res_loop g ?n a r prime ?init = Inr (c, res')"
      using gen_res_loop_total[OF n assms(1) len0] by blast
    have "c"
    proof (rule ccontr)
      assume "\<not> c"
      with loop have "gen_res_loop g ?n a r prime ?init = Inr (False, res')" by simp
      from gen_res_loop_sound[OF n assms(1) len0 this] False show False by simp
    qed
    with loop False show ?thesis by (simp add: gen_res_a_r_phf_def)
  qed
qed


lemma get_phf_prime_pos: "0 < get_phf_prime n"
  by (simp add: get_phf_prime_def)

lemma gen_res_a_r_phf_no_error:
  "\<exists>xs. gen_res_a_r_phf g (length g) a r (get_phf_prime (length g)) = Inr xs"
proof (cases "g = []")
  case True
  then show ?thesis by (simp add: gen_res_a_r_phf_empty)
next
  case False
  from gen_res_a_r_phf_cases[OF get_phf_prime_pos[of "length g"] False, of a r]
  show ?thesis by blast
qed

text \<open>The inner loop: the least shift count from \<open>r0\<close> on whose candidate is not empty.\<close>

lemma gen_phf_r_spec:
  assumes "\<And>r. \<exists>xs. gen_res_a_r_phf g n a r prime = Inr xs"
  shows "(gen_phf_r g n prime rl a r0 = Inr None
            \<and> (\<forall>r. r0 \<le> r \<and> r < rl \<longrightarrow> gen_res_a_r_phf g n a r prime = Inr []))
       \<or> (\<exists>r xs. r0 \<le> r \<and> r < rl \<and> gen_res_a_r_phf g n a r prime = Inr xs \<and> xs \<noteq> []
            \<and> (\<forall>r'. r0 \<le> r' \<and> r' < r \<longrightarrow> gen_res_a_r_phf g n a r' prime = Inr [])
            \<and> gen_phf_r g n prime rl a r0 =
                Inr (Some (xs, \<lparr>phf_a = a, phf_r = r, phf_prime = prime, phf_n = n\<rparr>)))"
  using assms
proof (induction g n prime rl a r0 rule: gen_phf_r.induct)
  case (1 g n prime rl a r0)
  show ?case
  proof (cases "r0 < rl")
    case False
    then show ?thesis by (subst gen_phf_r.simps) auto
  next
    case True
    from "1.prems" obtain xs where xs: "gen_res_a_r_phf g n a r0 prime = Inr xs" by blast
    show ?thesis
    proof (cases "xs = []")
      case False
      with True xs have "gen_phf_r g n prime rl a r0 =
          Inr (Some (xs, \<lparr>phf_a = a, phf_r = r0, phf_prime = prime, phf_n = n\<rparr>))"
        by (subst gen_phf_r.simps) simp
      with True xs False show ?thesis by (intro disjI2 exI[of _ r0] exI[of _ xs]) auto
    next
      case empty: True
      have step: "gen_phf_r g n prime rl a r0 = gen_phf_r g n prime rl a (Suc r0)"
        using True xs empty by (subst gen_phf_r.simps) simp
      have first: "gen_res_a_r_phf g n a r prime = Inr []" if "r0 \<le> r" "\<not> Suc r0 \<le> r" for r
      proof -
        from that have "r = r0" by simp
        with xs empty show ?thesis by simp
      qed
      from "1.IH"[OF True xs _ "1.prems"] empty
      consider (none) "gen_phf_r g n prime rl a (Suc r0) = Inr None"
          "\<forall>r. Suc r0 \<le> r \<and> r < rl \<longrightarrow> gen_res_a_r_phf g n a r prime = Inr []"
        | (some) r xs' where "Suc r0 \<le> r" "r < rl" "gen_res_a_r_phf g n a r prime = Inr xs'"
          "xs' \<noteq> []" "\<forall>r'. Suc r0 \<le> r' \<and> r' < r \<longrightarrow> gen_res_a_r_phf g n a r' prime = Inr []"
          "gen_phf_r g n prime rl a (Suc r0) =
             Inr (Some (xs', \<lparr>phf_a = a, phf_r = r, phf_prime = prime, phf_n = n\<rparr>))"
        by auto
      then show ?thesis
      proof cases
        case none
        have "\<forall>r. r0 \<le> r \<and> r < rl \<longrightarrow> gen_res_a_r_phf g n a r prime = Inr []"
          using none(2) first by blast
        with none(1) step show ?thesis by simp
      next
        case some
        have "\<forall>r'. r0 \<le> r' \<and> r' < r \<longrightarrow> gen_res_a_r_phf g n a r' prime = Inr []"
          using some(5) first by blast
        moreover have "r0 \<le> r" using some(1) by simp
        ultimately show ?thesis
          using some(2,3,4,6) step by (intro disjI2 exI[of _ r] exI[of _ xs']) simp
      qed
    qed
  qed
qed


text \<open>The outer loop: the first candidate in row-major order from \<open>(a0, 0)\<close> on.\<close>

lemma gen_phf_a_spec:
  assumes "\<And>a r. \<exists>xs. gen_res_a_r_phf g n a r prime = Inr xs"
  shows "(gen_phf_a g n prime rl a0 =
              Inl (ValueError ''could not find satisfactory parameter values to generate the PHF'')
            \<and> (\<forall>a r. a0 \<le> a \<and> a < PHF_A_LIMIT \<and> r < rl
                  \<longrightarrow> gen_res_a_r_phf g n a r prime = Inr []))
       \<or> (\<exists>a r xs. a0 \<le> a \<and> a < PHF_A_LIMIT \<and> r < rl
            \<and> gen_res_a_r_phf g n a r prime = Inr xs \<and> xs \<noteq> []
            \<and> (\<forall>a' r'. a0 \<le> a' \<and> a' < PHF_A_LIMIT \<and> r' < rl \<and> (a' < a \<or> a' = a \<and> r' < r)
                  \<longrightarrow> gen_res_a_r_phf g n a' r' prime = Inr [])
            \<and> gen_phf_a g n prime rl a0 =
                Inr (xs, \<lparr>phf_a = a, phf_r = r, phf_prime = prime, phf_n = n\<rparr>))"
  using assms
proof (induction g n prime rl a0 rule: gen_phf_a.induct)
  case (1 g n prime rl a0)
  show ?case
  proof (cases "a0 < PHF_A_LIMIT")
    case False
    then show ?thesis by (subst gen_phf_a.simps) auto
  next
    case True
    from gen_phf_r_spec[of g n a0 prime rl 0, OF "1.prems"]
    consider (none) "gen_phf_r g n prime rl a0 0 = Inr None"
        "\<forall>r. r < rl \<longrightarrow> gen_res_a_r_phf g n a0 r prime = Inr []"
      | (some) r xs where "r < rl" "gen_res_a_r_phf g n a0 r prime = Inr xs" "xs \<noteq> []"
        "\<forall>r'. r' < r \<longrightarrow> gen_res_a_r_phf g n a0 r' prime = Inr []"
        "gen_phf_r g n prime rl a0 0 =
           Inr (Some (xs, \<lparr>phf_a = a0, phf_r = r, phf_prime = prime, phf_n = n\<rparr>))"
      by auto
    then show ?thesis
    proof cases
      case some
      have res: "gen_phf_a g n prime rl a0 =
          Inr (xs, \<lparr>phf_a = a0, phf_r = r, phf_prime = prime, phf_n = n\<rparr>)"
        using True some(5) by (subst gen_phf_a.simps) simp
      have "\<forall>a' r'. a0 \<le> a' \<and> a' < PHF_A_LIMIT \<and> r' < rl \<and> (a' < a0 \<or> a' = a0 \<and> r' < r)
          \<longrightarrow> gen_res_a_r_phf g n a' r' prime = Inr []"
        using some(4) by auto
      with True some(1,2,3) res show ?thesis
        by (intro disjI2 exI[of _ a0] exI[of _ r] exI[of _ xs]) simp
    next
      case none
      have step: "gen_phf_a g n prime rl a0 = gen_phf_a g n prime rl (a0 + 1)"
        using True none(1) by (subst gen_phf_a.simps) simp
      have row: "gen_res_a_r_phf g n a r prime = Inr []"
        if "a0 \<le> a" "\<not> a0 + 1 \<le> a" "r < rl" for a r
      proof -
        from that have "a = a0" by simp
        with none(2) that(3) show ?thesis by simp
      qed
      from "1.IH"[OF True none(1) _ "1.prems"]
      consider (fail) "gen_phf_a g n prime rl (a0 + 1) =
            Inl (ValueError ''could not find satisfactory parameter values to generate the PHF'')"
          "\<forall>a r. a0 + 1 \<le> a \<and> a < PHF_A_LIMIT \<and> r < rl
              \<longrightarrow> gen_res_a_r_phf g n a r prime = Inr []"
        | (found) a r xs where "a0 + 1 \<le> a" "a < PHF_A_LIMIT" "r < rl"
          "gen_res_a_r_phf g n a r prime = Inr xs" "xs \<noteq> []"
          "\<forall>a' r'. a0 + 1 \<le> a' \<and> a' < PHF_A_LIMIT \<and> r' < rl \<and> (a' < a \<or> a' = a \<and> r' < r)
              \<longrightarrow> gen_res_a_r_phf g n a' r' prime = Inr []"
          "gen_phf_a g n prime rl (a0 + 1) =
             Inr (xs, \<lparr>phf_a = a, phf_r = r, phf_prime = prime, phf_n = n\<rparr>)"
        by auto
      then show ?thesis
      proof cases
        case fail
        have "\<forall>a r. a0 \<le> a \<and> a < PHF_A_LIMIT \<and> r < rl
            \<longrightarrow> gen_res_a_r_phf g n a r prime = Inr []"
          using fail(2) row by blast
        with fail(1) step show ?thesis by simp
      next
        case found
        have "\<forall>a' r'. a0 \<le> a' \<and> a' < PHF_A_LIMIT \<and> r' < rl \<and> (a' < a \<or> a' = a \<and> r' < r)
            \<longrightarrow> gen_res_a_r_phf g n a' r' prime = Inr []"
          using found(6) row by blast
        moreover have "a0 \<le> a" using found(1) by simp
        ultimately show ?thesis
          using found(2,3,4,5,7) step
          by (intro disjI2 exI[of _ a] exI[of _ r] exI[of _ xs]) simp
      qed
    qed
  qed
qed


lemma candidate_nonempty_iff:
  "gen_res_a_r_phf g (length g) a r (get_phf_prime (length g)) \<noteq> Inr [] \<longleftrightarrow>
     g \<noteq> [] \<and> distinct (map (\<lambda>x. phf_h a r (get_phf_prime (length g)) (length g) (node_uid x)) g)"
proof (cases "g = []")
  case True
  then show ?thesis by (simp add: gen_res_a_r_phf_empty)
next
  case False
  from gen_res_a_r_phf_cases[OF get_phf_prime_pos[of "length g"] False, of a r] False
  show ?thesis by auto
qed

lemma gen_phf_search:
  "(gen_phf maxsize g = Inr (res, phf)) =
     (\<exists>a r. 1 \<le> a \<and> a < PHF_A_LIMIT \<and> r < PHF_R_LIMIT maxsize
        \<and> gen_res_a_r_phf g (length g) a r (get_phf_prime (length g)) = Inr res \<and> res \<noteq> []
        \<and> phf = \<lparr>phf_a = a, phf_r = r, phf_prime = get_phf_prime (length g), phf_n = length g\<rparr>
        \<and> (\<forall>a' r'. 1 \<le> a' \<and> a' < PHF_A_LIMIT \<and> r' < PHF_R_LIMIT maxsize
                \<and> (a' < a \<or> a' = a \<and> r' < r)
              \<longrightarrow> gen_res_a_r_phf g (length g) a' r' (get_phf_prime (length g)) = Inr []))"
proof -
  let ?n = "length g"
  let ?p = "get_phf_prime ?n"
  let ?rl = "PHF_R_LIMIT maxsize"
  let ?C = "\<lambda>a r. gen_res_a_r_phf g ?n a r ?p"
  have run: "gen_phf maxsize g = gen_phf_a g ?n ?p ?rl 1"
    by (simp add: gen_phf_def Let_def)
  have noerr: "\<And>a r. \<exists>xs. ?C a r = Inr xs" by (rule gen_res_a_r_phf_no_error)
  from gen_phf_a_spec[of g ?n ?p ?rl 1, OF noerr]
  consider (fail) "gen_phf_a g ?n ?p ?rl 1 =
        Inl (ValueError ''could not find satisfactory parameter values to generate the PHF'')"
      "\<forall>a r. 1 \<le> a \<and> a < PHF_A_LIMIT \<and> r < ?rl \<longrightarrow> ?C a r = Inr []"
    | (found) a r xs where "1 \<le> a" "a < PHF_A_LIMIT" "r < ?rl" "?C a r = Inr xs" "xs \<noteq> []"
      "\<forall>a' r'. 1 \<le> a' \<and> a' < PHF_A_LIMIT \<and> r' < ?rl \<and> (a' < a \<or> a' = a \<and> r' < r)
          \<longrightarrow> ?C a' r' = Inr []"
      "gen_phf_a g ?n ?p ?rl 1 = Inr (xs, \<lparr>phf_a = a, phf_r = r, phf_prime = ?p, phf_n = ?n\<rparr>)"
    by auto
  then show ?thesis
  proof cases
    case fail
    have "\<not> (\<exists>a r. 1 \<le> a \<and> a < PHF_A_LIMIT \<and> r < ?rl \<and> ?C a r = Inr res \<and> res \<noteq> [])"
      using fail(2) by auto
    with fail(1) run show ?thesis by auto
  next
    case found
    show ?thesis
    proof
      assume "gen_phf maxsize g = Inr (res, phf)"
      with run found(7) have "res = xs"
        "phf = \<lparr>phf_a = a, phf_r = r, phf_prime = ?p, phf_n = ?n\<rparr>" by simp_all
      with found(1-6) show "\<exists>a r. 1 \<le> a \<and> a < PHF_A_LIMIT \<and> r < ?rl
        \<and> ?C a r = Inr res \<and> res \<noteq> []
        \<and> phf = \<lparr>phf_a = a, phf_r = r, phf_prime = ?p, phf_n = ?n\<rparr>
        \<and> (\<forall>a' r'. 1 \<le> a' \<and> a' < PHF_A_LIMIT \<and> r' < ?rl \<and> (a' < a \<or> a' = a \<and> r' < r)
              \<longrightarrow> ?C a' r' = Inr [])"
        by (intro exI[of _ a] exI[of _ r]) simp
    next
      assume "\<exists>a r. 1 \<le> a \<and> a < PHF_A_LIMIT \<and> r < ?rl
        \<and> ?C a r = Inr res \<and> res \<noteq> []
        \<and> phf = \<lparr>phf_a = a, phf_r = r, phf_prime = ?p, phf_n = ?n\<rparr>
        \<and> (\<forall>a' r'. 1 \<le> a' \<and> a' < PHF_A_LIMIT \<and> r' < ?rl \<and> (a' < a \<or> a' = a \<and> r' < r)
              \<longrightarrow> ?C a' r' = Inr [])"
      then obtain b q where bq: "1 \<le> b" "b < PHF_A_LIMIT" "q < ?rl" "?C b q = Inr res" "res \<noteq> []"
        "phf = \<lparr>phf_a = b, phf_r = q, phf_prime = ?p, phf_n = ?n\<rparr>"
        and least: "\<And>a' r'. 1 \<le> a' \<Longrightarrow> a' < PHF_A_LIMIT \<Longrightarrow> r' < ?rl
            \<Longrightarrow> a' < b \<or> a' = b \<and> r' < q \<Longrightarrow> ?C a' r' = Inr []"
        by blast
      have "\<not> (a < b \<or> a = b \<and> r < q)"
      proof
        assume "a < b \<or> a = b \<and> r < q"
        from least[OF found(1,2,3) this] found(4,5) show False by simp
      qed
      moreover have "\<not> (b < a \<or> b = a \<and> q < r)"
      proof
        assume lt: "b < a \<or> b = a \<and> q < r"
        from found(6) bq(1,2,3) lt have "?C b q = Inr []" by blast
        with bq(4,5) show False by simp
      qed
      ultimately have "a = b" "r = q" by auto
      with found(4,7) bq(4,6) run show "gen_phf maxsize g = Inr (res, phf)" by simp
    qed
  qed
qed

lemma gen_phf_duplicate_uid:
  assumes "\<not> distinct (map node_uid g)"
  shows "gen_phf maxsize g =
     Inl (ValueError ''could not find satisfactory parameter values to generate the PHF'')"
proof -
  let ?n = "length g"
  let ?p = "get_phf_prime ?n"
  have empty: "gen_res_a_r_phf g ?n a r ?p = Inr []" for a r
  proof (rule ccontr)
    assume "gen_res_a_r_phf g ?n a r ?p \<noteq> Inr []"
    then have "distinct (map (\<lambda>x. phf_h a r ?p ?n (node_uid x)) g)"
      by (simp only: candidate_nonempty_iff)
    then have "distinct (map (phf_h a r ?p ?n) (map node_uid g))" by (simp add: comp_def)
    then have "distinct (map node_uid g)" by (simp only: distinct_map)
    with assms show False by simp
  qed
  have noerr: "\<And>a r. \<exists>xs. gen_res_a_r_phf g ?n a r ?p = Inr xs" by (rule gen_res_a_r_phf_no_error)
  from gen_phf_a_spec[of g ?n ?p "PHF_R_LIMIT maxsize" 1, OF noerr] empty
  have "gen_phf_a g ?n ?p (PHF_R_LIMIT maxsize) 1 =
     Inl (ValueError ''could not find satisfactory parameter values to generate the PHF'')"
    by auto
  then show ?thesis by (simp add: gen_phf_def Let_def)
qed


lemma gen_phf_success:
  assumes "gen_phf maxsize g = Inr (res, phf)"
  shows "g \<noteq> []"
    and "phf_n phf = length g"
    and "phf_prime phf = get_phf_prime (length g)"
    and "1 \<le> phf_a phf" "phf_a phf < PHF_A_LIMIT" "phf_r phf < PHF_R_LIMIT maxsize"
    and "length res = length g"
    and "set res = set g"
    and "distinct (map (\<lambda>x. phf_h (phf_a phf) (phf_r phf) (phf_prime phf) (phf_n phf) (node_uid x)) g)"
    and "\<And>x. x \<in> set g \<Longrightarrow>
          phf_h (phf_a phf) (phf_r phf) (phf_prime phf) (phf_n phf) (node_uid x) < length res
          \<and> res ! phf_h (phf_a phf) (phf_r phf) (phf_prime phf) (phf_n phf) (node_uid x) = x"
proof -
  let ?n = "length g"
  let ?p = "get_phf_prime ?n"
  from assms obtain a r where ar: "1 \<le> a" "a < PHF_A_LIMIT" "r < PHF_R_LIMIT maxsize"
    "gen_res_a_r_phf g ?n a r ?p = Inr res" "res \<noteq> []"
    "phf = \<lparr>phf_a = a, phf_r = r, phf_prime = ?p, phf_n = ?n\<rparr>"
    unfolding gen_phf_search by blast
  show ne: "g \<noteq> []"
  proof
    assume "g = []"
    with ar(4,5) show False by (simp add: gen_res_a_r_phf_empty)
  qed
  show "phf_n phf = ?n" "phf_prime phf = ?p" "1 \<le> phf_a phf" "phf_a phf < PHF_A_LIMIT"
    "phf_r phf < PHF_R_LIMIT maxsize"
    using ar by simp_all
  from gen_res_a_r_phf_cases[OF get_phf_prime_pos[of ?n] ne, of a r] ar(4,5)
  have d: "distinct (map (\<lambda>x. phf_h a r ?p ?n (node_uid x)) g)"
    and l: "length res = ?n" and s: "set res = set g"
    and at: "\<forall>x\<in>set g. res ! phf_h a r ?p ?n (node_uid x) = x"
    by auto
  show "length res = ?n" by (rule l)
  show "set res = set g" by (rule s)
  show "distinct (map (\<lambda>x. phf_h (phf_a phf) (phf_r phf) (phf_prime phf) (phf_n phf) (node_uid x)) g)"
    using d ar(6) by simp
  fix x assume x: "x \<in> set g"
  have "phf_h a r ?p ?n (node_uid x) < ?n"
    using ne get_phf_prime_pos[of ?n] by (intro get_hash_with_args_h(2)) simp_all
  with at x l ar(6)
  show "phf_h (phf_a phf) (phf_r phf) (phf_prime phf) (phf_n phf) (node_uid x) < length res
      \<and> res ! phf_h (phf_a phf) (phf_r phf) (phf_prime phf) (phf_n phf) (node_uid x) = x"
    by simp
qed

text \<open>
  Claim C6. \<^verbatim>\<open>gen_phf\<close> returns \<open>(res, phf)\<close> exactly when \<open>phf\<close> holds the first pair
  \<open>(a, r)\<close>, in row-major order over \<open>a = 1, 2, \<dots>\<close> below \<^const>\<open>PHF_A_LIMIT\<close> (outer)
  and \<open>r = 0, 1, \<dots>\<close> below \<^const>\<open>PHF_R_LIMIT\<close> (inner), whose candidate tuple is not
  empty, and \<open>res\<close> is that tuple; every earlier pair gave the empty tuple. A candidate
  is not empty exactly when the tuple of nodes is not empty and all nodes fall into
  different slots (no collision). The result is a function of the tuple of nodes (with
  their uids) and of the platform constant alone, so two runs on the same tuple in the
  same order return the same \<open>(a, r)\<close>.
\<close>

theorem gen_phf_first_candidate:
  "((gen_phf maxsize g = Inr (res, phf)) =
     (\<exists>a r. 1 \<le> a \<and> a < PHF_A_LIMIT \<and> r < PHF_R_LIMIT maxsize
        \<and> gen_res_a_r_phf g (length g) a r (get_phf_prime (length g)) = Inr res \<and> res \<noteq> []
        \<and> phf = \<lparr>phf_a = a, phf_r = r, phf_prime = get_phf_prime (length g), phf_n = length g\<rparr>
        \<and> (\<forall>a' r'. 1 \<le> a' \<and> a' < PHF_A_LIMIT \<and> r' < PHF_R_LIMIT maxsize
                \<and> (a' < a \<or> a' = a \<and> r' < r)
              \<longrightarrow> gen_res_a_r_phf g (length g) a' r' (get_phf_prime (length g)) = Inr [])))
   \<and> ((gen_res_a_r_phf g (length g) b q (get_phf_prime (length g)) \<noteq> Inr []) =
        (g \<noteq> [] \<and> distinct (map (\<lambda>x. phf_h b q (get_phf_prime (length g)) (length g) (node_uid x)) g)))"
  using gen_phf_search[of maxsize g res phf] candidate_nonempty_iff[of g b q] by blast

theorem gen_phf_first_candidate_witness:
  "gen_phf (2 ^ 63 - 1) (tmp_nodes graph_ab) =
     Inr ([IRNode_init example_hash unit_b, IRNode_init example_hash unit_a],
          \<lparr>phf_a = 1, phf_r = 5, phf_prime = 37, phf_n = 2\<rparr>)
   \<and> gen_res_a_r_phf (tmp_nodes graph_ab) 2 1 4 37 = Inr []"
proof -
  let ?g = "tmp_nodes graph_ab"
  let ?res = "[IRNode_init example_hash unit_b, IRNode_init example_hash unit_a]"
  let ?phf = "\<lparr>phf_a = 1, phf_r = 5, phf_prime = 37, phf_n = 2\<rparr>"
  have run: "gen_phf (2 ^ 63 - 1) ?g = Inr (?res, ?phf)" by code_simp
  have len: "length ?g = 2" by code_simp
  have prime: "get_phf_prime 2 = 37" by (simp add: get_phf_prime_def)
  from gen_phf_first_candidate[of "2 ^ 63 - 1" ?g ?res ?phf] run
  obtain a r where ar: "?phf = \<lparr>phf_a = a, phf_r = r, phf_prime = get_phf_prime (length ?g),
        phf_n = length ?g\<rparr>"
    and least: "\<forall>a' r'. 1 \<le> a' \<and> a' < PHF_A_LIMIT \<and> r' < PHF_R_LIMIT (2 ^ 63 - 1)
        \<and> (a' < a \<or> a' = a \<and> r' < r)
      \<longrightarrow> gen_res_a_r_phf ?g (length ?g) a' r' (get_phf_prime (length ?g)) = Inr []"
    by blast
  from ar have "a = 1" "r = 5" by simp_all
  with least have "1 \<le> (1::int) \<and> (1::int) < PHF_A_LIMIT \<and> (4::nat) < PHF_R_LIMIT (2 ^ 63 - 1)
        \<and> ((1::int) < 1 \<or> (1::int) = 1 \<and> (4::nat) < 5)
      \<longrightarrow> gen_res_a_r_phf ?g (length ?g) 1 4 (get_phf_prime (length ?g)) = Inr []"
    by blast
  then have "gen_res_a_r_phf ?g 2 1 4 37 = Inr []"
    by (simp add: len prime PHF_A_LIMIT_def PHF_R_LIMIT_def)
  with run show ?thesis by simp
qed

section \<open>The perfect hash function over the nodes of a graph\<close>

lemma IRNode_init_irhash:
  "x \<in> range (IRNode_init H) \<Longrightarrow> irh_uid (node_irhash x) = node_uid x"
  by (auto simp: IRNode_init_def IRHash_init_def)


lemma gen_phf_distinct_uid:
  assumes "gen_phf maxsize g = Inr (res, phf)"
  shows "distinct (map node_uid g)"
proof (rule ccontr)
  assume "\<not> distinct (map node_uid g)"
  from gen_phf_duplicate_uid[OF this, of maxsize] assms show False by simp
qed

text \<open>
  Claim C1. For every tuple of nodes made by the \<^verbatim>\<open>IRNode\<close> constructor on which
  \<^verbatim>\<open>gen_phf\<close> returns a result: the uids are pairwise distinct (otherwise it would have
  raised), the returned parameters are \<open>n = |g|\<close>, the prime of that size class, and
  \<open>(a, r)\<close> within the limits; the hash function \<open>h\<close> of the specification with these
  parameters is injective over the uids; the returned tuple has \<open>n\<close> slots and every
  node sits at slot \<open>h(uid)\<close>; and the \<^verbatim>\<open>NodeSet\<close> built from the tuple and the
  parameters returns, for the identity of every node, that very node, which is equal to
  it by \<^verbatim>\<open>==\<close>.
\<close>

theorem gen_phf_perfect_hash:
  assumes "set g \<subseteq> range (IRNode_init H)"
    and "gen_phf maxsize g = Inr (res, phf)"
  shows "distinct (map node_uid g)
    \<and> phf_n phf = length g \<and> phf_prime phf = get_phf_prime (length g)
    \<and> 1 \<le> phf_a phf \<and> phf_a phf < PHF_A_LIMIT \<and> phf_r phf < PHF_R_LIMIT maxsize
    \<and> inj_on (phf_h (phf_a phf) (phf_r phf) (phf_prime phf) (phf_n phf)) (node_uid ` set g)
    \<and> length res = length g
    \<and> (\<forall>x\<in>set g.
          phf_h (phf_a phf) (phf_r phf) (phf_prime phf) (phf_n phf) (node_uid x) < length res
          \<and> res ! phf_h (phf_a phf) (phf_r phf) (phf_prime phf) (phf_n phf) (node_uid x) = x)
    \<and> (\<exists>ns. NodeSet_new_set (\<lambda>_. True) res phf = Inr ns
          \<and> (\<forall>x\<in>set g. \<exists>y. NodeSet_getitem ns (node_irhash x) = Inr y \<and> y = x \<and> IRNode_eq y x))"
proof -
  let ?h = "phf_h (phf_a phf) (phf_r phf) (phf_prime phf) (phf_n phf)"
  note S = gen_phf_success[OF assms(2)]
  have du: "distinct (map node_uid g)" using assms(2) by (rule gen_phf_distinct_uid)
  have "distinct (map ?h (map node_uid g))" using S(9) by (simp add: comp_def)
  then have "inj_on ?h (set (map node_uid g))"
    by (rule distinct_map[THEN iffD1, THEN conjunct2])
  then have inj: "inj_on ?h (node_uid ` set g)" by (simp only: set_map)
  have at: "\<forall>x\<in>set g. ?h (node_uid x) < length res \<and> res ! ?h (node_uid x) = x"
    using S(10) by blast
  let ?ns = "\<lparr>ns_data = res, ns_phf = Some phf\<rparr>"
  have ns: "NodeSet_new_set (\<lambda>_. True) res phf = Inr ?ns"
    by (simp add: NodeSet_new_set_def NodeSet_init_def list_all_iff)
  have pos: "0 < phf_n phf" "0 < phf_prime phf"
    using S(1,2,3) get_phf_prime_pos[of "length g"] by simp_all
  have rt: "\<exists>y. NodeSet_getitem ?ns (node_irhash x) = Inr y \<and> y = x \<and> IRNode_eq y x"
    if x: "x \<in> set g" for x
  proof -
    from x assms(1) have "irh_uid (node_irhash x) = node_uid x"
      by (intro IRNode_init_irhash) auto
    then have "get_hash (irh_uid (node_irhash x)) phf = Inr (?h (node_uid x))"
      using get_hash_h[OF pos] by simp
    with S(10)[OF x] have "NodeSet_getitem ?ns (node_irhash x) = Inr x"
      by (simp add: NodeSet_getitem_def)
    then show ?thesis by (simp add: IRNode_eq_def)
  qed
  from du S(2,3,4,5,6,7) inj at ns rt show ?thesis by blast
qed

theorem gen_phf_perfect_hash_witness:
  "gen_phf (2 ^ 63 - 1) [IRNode_init example_hash unit_a, IRNode_init example_hash unit_b] =
     Inr ([IRNode_init example_hash unit_b, IRNode_init example_hash unit_a],
          \<lparr>phf_a = 1, phf_r = 5, phf_prime = 37, phf_n = 2\<rparr>)
   \<and> phf_h 1 5 37 2 (node_uid (IRNode_init example_hash unit_a)) = 1
   \<and> phf_h 1 5 37 2 (node_uid (IRNode_init example_hash unit_b)) = 0
   \<and> NodeSet_getitem
        \<lparr>ns_data = [IRNode_init example_hash unit_b, IRNode_init example_hash unit_a],
         ns_phf = Some \<lparr>phf_a = 1, phf_r = 5, phf_prime = 37, phf_n = 2\<rparr>\<rparr>
        (node_irhash (IRNode_init example_hash unit_a)) = Inr (IRNode_init example_hash unit_a)"
proof -
  let ?a = "IRNode_init example_hash unit_a"
  let ?b = "IRNode_init example_hash unit_b"
  let ?phf = "\<lparr>phf_a = 1, phf_r = 5, phf_prime = 37, phf_n = 2\<rparr>"
  have sub: "set [?a, ?b] \<subseteq> range (IRNode_init example_hash)" by auto
  have run: "gen_phf (2 ^ 63 - 1) [?a, ?b] = Inr ([?b, ?a], ?phf)" by code_simp
  have ha: "phf_h 1 5 37 2 (node_uid ?a) = 1" by code_simp
  have hb: "phf_h 1 5 37 2 (node_uid ?b) = 0" by code_simp
  from gen_phf_perfect_hash[OF sub run]
  obtain ns where ns: "NodeSet_new_set (\<lambda>_. True) [?b, ?a] ?phf = Inr ns"
    and rt: "\<forall>x\<in>set [?a, ?b]. \<exists>y. NodeSet_getitem ns (node_irhash x) = Inr y \<and> y = x \<and> IRNode_eq y x"
    by blast
  from ns have "ns = \<lparr>ns_data = [?b, ?a], ns_phf = Some ?phf\<rparr>"
    by (simp add: NodeSet_new_set_def NodeSet_init_def)
  moreover from rt have "NodeSet_getitem ns (node_irhash ?a) = Inr ?a" by simp
  ultimately show ?thesis using run ha hb by simp
qed

section \<open>References and the outcome of a build\<close>

lemma check_refs_iff:
  "check_refs g \<longleftrightarrow>
     (\<forall>node\<in>set (ns_data (nodes g)).
        (\<forall>(s, h)\<in>set (rt_types (ir_ref_table (node_ir node))).
            \<exists>m\<in>set (ns_data (nodes g)). IRHash_eq h (node_irhash m))
      \<and> (\<forall>(f, h)\<in>set (rt_fns (ir_ref_table (node_ir node))).
            \<exists>m\<in>set (ns_data (nodes g)). IRHash_eq h (node_irhash m)))"
  by (simp add: check_refs_def NodeSet_contains_IRHash_def list_all_iff list_ex_iff case_prod_unfold)

text \<open>
  The same unit added twice: no reference table has an entry, so no reference points to
  an absent identity, yet \<^verbatim>\<open>build()\<close> raises, because no \<open>(a, r)\<close> can separate two
  nodes with one uid.
\<close>

theorem build_resolved_refs_counterexample:
  "\<not> is_built graph_aa
   \<and> tmp_nodes graph_aa = [IRNode_init example_hash unit_a, IRNode_init example_hash unit_a]
   \<and> ir_ref_table unit_a = \<lparr>rt_types = [], rt_fns = []\<rparr>
   \<and> build (2 ^ 63 - 1) graph_aa =
       (Inl (ValueError ''could not find satisfactory parameter values to generate the PHF''),
        graph_aa)"
proof -
  have nb: "\<not> is_built graph_aa"
    by (simp add: graph_aa_def add_node_def IRGraph_init_def Let_def)
  have tn: "tmp_nodes graph_aa = [IRNode_init example_hash unit_a, IRNode_init example_hash unit_a]"
    by (simp add: graph_aa_def add_node_def IRGraph_init_def Let_def)
  have rt: "ir_ref_table unit_a = \<lparr>rt_types = [], rt_fns = []\<rparr>"
    by (simp add: unit_a_def)
  have "\<not> distinct (map node_uid (tmp_nodes graph_aa))" by (simp add: tn)
  then have "gen_phf (2 ^ 63 - 1) (tmp_nodes graph_aa) =
      Inl (ValueError ''could not find satisfactory parameter values to generate the PHF'')"
    by (rule gen_phf_duplicate_uid)
  then have "build (2 ^ 63 - 1) graph_aa =
       (Inl (ValueError ''could not find satisfactory parameter values to generate the PHF''),
        graph_aa)"
    using nb tn by (simp add: build_def)
  with nb tn rt show ?thesis by simp
qed

text \<open>
  Claim C2, as amended. For every graph in the building state with at least one added
  node: when the search for the perfect hash function raises, \<^verbatim>\<open>build()\<close> raises the
  same error and leaves the graph as it was, and the search always raises when two added
  nodes have the same uid. When the search returns, \<^verbatim>\<open>build()\<close> freezes the node set
  and empties the building tuple; it then raises when some node's type-reference or
  function-reference table maps a symbol to an identity that equals the identity of no
  added node, and otherwise succeeds and sets \<^verbatim>\<open>is_built\<close>.
\<close>

theorem build_checks_references:
  assumes "\<not> is_built g" and "tmp_nodes g \<noteq> []"
  shows "build maxsize g =
     (case gen_phf maxsize (tmp_nodes g) of
        Inl e \<Rightarrow> (Inl e, g)
      | Inr (res, phf) \<Rightarrow>
          if \<forall>node\<in>set (tmp_nodes g).
               (\<forall>(s, h)\<in>set (rt_types (ir_ref_table (node_ir node))).
                   \<exists>m\<in>set (tmp_nodes g). IRHash_eq h (node_irhash m))
               \<and> (\<forall>(f, h)\<in>set (rt_fns (ir_ref_table (node_ir node))).
                   \<exists>m\<in>set (tmp_nodes g). IRHash_eq h (node_irhash m))
          then (Inr (),
                g\<lparr>nodes := \<lparr>ns_data = res, ns_phf = Some phf\<rparr>, tmp_nodes := [], is_built := True\<rparr>)
          else (Inl (ValueError ''missing nodes to build the ir graph''),
                g\<lparr>nodes := \<lparr>ns_data = res, ns_phf = Some phf\<rparr>, tmp_nodes := []\<rparr>))
   \<and> (\<not> distinct (map node_uid (tmp_nodes g)) \<longrightarrow>
        build maxsize g =
          (Inl (ValueError ''could not find satisfactory parameter values to generate the PHF''), g))"
proof (intro conjI impI)
  assume "\<not> distinct (map node_uid (tmp_nodes g))"
  then have "gen_phf maxsize (tmp_nodes g) =
      Inl (ValueError ''could not find satisfactory parameter values to generate the PHF'')"
    by (rule gen_phf_duplicate_uid)
  then show "build maxsize g =
      (Inl (ValueError ''could not find satisfactory parameter values to generate the PHF''), g)"
    using assms by (simp add: build_def)
next
  show "build maxsize g =
     (case gen_phf maxsize (tmp_nodes g) of
        Inl e \<Rightarrow> (Inl e, g)
      | Inr (res, phf) \<Rightarrow>
          if \<forall>node\<in>set (tmp_nodes g).
               (\<forall>(s, h)\<in>set (rt_types (ir_ref_table (node_ir node))).
                   \<exists>m\<in>set (tmp_nodes g). IRHash_eq h (node_irhash m))
               \<and> (\<forall>(f, h)\<in>set (rt_fns (ir_ref_table (node_ir node))).
                   \<exists>m\<in>set (tmp_nodes g). IRHash_eq h (node_irhash m))
          then (Inr (),
                g\<lparr>nodes := \<lparr>ns_data = res, ns_phf = Some phf\<rparr>, tmp_nodes := [], is_built := True\<rparr>)
          else (Inl (ValueError ''missing nodes to build the ir graph''),
                g\<lparr>nodes := \<lparr>ns_data = res, ns_phf = Some phf\<rparr>, tmp_nodes := []\<rparr>))"
  proof (cases "gen_phf maxsize (tmp_nodes g)")
    case (Inl e)
    then show ?thesis using assms by (simp add: build_def)
  next
    case (Inr rp)
    obtain res phf where rp: "rp = (res, phf)" by (cases rp)
    from Inr rp have run: "gen_phf maxsize (tmp_nodes g) = Inr (res, phf)" by simp
    have same: "set res = set (tmp_nodes g)" using run by (rule gen_phf_success(8))
    let ?g1 = "g\<lparr>nodes := \<lparr>ns_data = res, ns_phf = Some phf\<rparr>, tmp_nodes := []\<rparr>"
    have cr: "check_refs ?g1 \<longleftrightarrow>
      (\<forall>node\<in>set (tmp_nodes g).
               (\<forall>(s, h)\<in>set (rt_types (ir_ref_table (node_ir node))).
                   \<exists>m\<in>set (tmp_nodes g). IRHash_eq h (node_irhash m))
               \<and> (\<forall>(f, h)\<in>set (rt_fns (ir_ref_table (node_ir node))).
                   \<exists>m\<in>set (tmp_nodes g). IRHash_eq h (node_irhash m)))"
      by (simp add: check_refs_iff same)
    have "build maxsize g =
        (if check_refs ?g1 then (Inr (), ?g1\<lparr>is_built := True\<rparr>)
         else (Inl (ValueError ''missing nodes to build the ir graph''), ?g1))"
      using assms run
      by (simp add: build_def NodeSet_new_set_def NodeSet_init_def Let_def list_all_iff)
    then show ?thesis unfolding cr using run by simp
  qed
qed

theorem build_checks_references_witness:
  "\<not> is_built graph_ab \<and> tmp_nodes graph_ab \<noteq> []
   \<and> fst (build (2 ^ 63 - 1) graph_ab) = Inr ()
   \<and> is_built (snd (build (2 ^ 63 - 1) graph_ab))
   \<and> \<not> is_built graph_c \<and> tmp_nodes graph_c \<noteq> []
   \<and> fst (build (2 ^ 63 - 1) graph_c) = Inl (ValueError ''missing nodes to build the ir graph'')
   \<and> \<not> is_built (snd (build (2 ^ 63 - 1) graph_c))"
proof -
  have ab: "\<not> is_built graph_ab" "tmp_nodes graph_ab \<noteq> []" by code_simp+
  have c: "\<not> is_built graph_c" "tmp_nodes graph_c \<noteq> []" by code_simp+
  have run_ab: "gen_phf (2 ^ 63 - 1) (tmp_nodes graph_ab) =
      Inr ([IRNode_init example_hash unit_b, IRNode_init example_hash unit_a],
           \<lparr>phf_a = 1, phf_r = 5, phf_prime = 37, phf_n = 2\<rparr>)"
    by code_simp
  have run_c: "gen_phf (2 ^ 63 - 1) (tmp_nodes graph_c) =
      Inr ([IRNode_init example_hash unit_c], \<lparr>phf_a = 1, phf_r = 0, phf_prime = 37, phf_n = 1\<rparr>)"
    by code_simp
  have refs_ab: "\<forall>node\<in>set (tmp_nodes graph_ab).
        (\<forall>(s, h)\<in>set (rt_types (ir_ref_table (node_ir node))).
            \<exists>m\<in>set (tmp_nodes graph_ab). IRHash_eq h (node_irhash m))
        \<and> (\<forall>(f, h)\<in>set (rt_fns (ir_ref_table (node_ir node))).
            \<exists>m\<in>set (tmp_nodes graph_ab). IRHash_eq h (node_irhash m))"
    by code_simp
  have refs_c: "\<not> (\<forall>node\<in>set (tmp_nodes graph_c).
        (\<forall>(s, h)\<in>set (rt_types (ir_ref_table (node_ir node))).
            \<exists>m\<in>set (tmp_nodes graph_c). IRHash_eq h (node_irhash m))
        \<and> (\<forall>(f, h)\<in>set (rt_fns (ir_ref_table (node_ir node))).
            \<exists>m\<in>set (tmp_nodes graph_c). IRHash_eq h (node_irhash m)))"
    by code_simp
  note b_ab = build_checks_references[OF ab, of "2 ^ 63 - 1", THEN conjunct1,
      unfolded run_ab sum.case prod.case if_P[OF refs_ab]]
  note b_c = build_checks_references[OF c, of "2 ^ 63 - 1", THEN conjunct1,
      unfolded run_c sum.case prod.case if_not_P[OF refs_c]]
  have "fst (build (2 ^ 63 - 1) graph_ab) = Inr ()" "is_built (snd (build (2 ^ 63 - 1) graph_ab))"
    by (simp_all only: b_ab fst_conv snd_conv) simp
  moreover
  have "fst (build (2 ^ 63 - 1) graph_c) = Inl (ValueError ''missing nodes to build the ir graph'')"
    "\<not> is_built (snd (build (2 ^ 63 - 1) graph_c))"
    using c(1) by (simp_all only: b_c fst_conv snd_conv) simp
  ultimately show ?thesis using ab c by simp
qed

section \<open>Overloads of a function, before and after the build\<close>














end
